theory Spec2Isabelle
  imports Complex_Main "HOL-Library.Word" "HOL-Library.While_Combinator"
begin

section \<open>The decoder's data, as declared in faster-decoder.h\<close>

text \<open>
  Costs, weights and beams are \<open>float\<close> and \<open>double\<close> in the source. A value of either type
  is a \<open>real\<close>, and the sums that the header computes are rounded as the machine rounds
  them (\<open>to_float\<close>, \<open>to_double\<close> below). The search that is written down from the spec adds
  costs as the spec states them, exactly. The \<open>int32_t\<close> fields are \<open>32 word\<close>, read as
  two's complement with \<open>sint\<close>.
\<close>

type_synonym int32 = "32 word"

text \<open>
  Modelled from the spec: the \<open>Arc\<close> type of fst.h, which is not part of the sources at
  hand. The spec's transition has a destination state, an output label, a graph weight and
  a flag telling a frame-consuming transition from a frame-free one. The header itself
  reads only \<open>arc.weight\<close>, which is taken to be a \<open>float\<close>, as \<open>ac_cost\<close> is.
\<close>

record Arc =
  next_state :: int32
  olabel :: int32
  weight :: real
  consumes_frame :: bool

datatype error = BadPointer | CheckFailed

text \<open>
  \<open>struct FasterDecoderOptions\<close> and its default constructor.
\<close>

record FasterDecoderOptions =
  beam :: real
  max_active :: int32
  min_active :: int32
  beam_delta :: real
  hash_ratio :: real

definition default_options :: FasterDecoderOptions where
  "default_options =
     \<lparr>beam = 16, max_active = 2147483647, min_active = 20,
      beam_delta = 1 / 2, hash_ratio = 2\<rparr>"

text \<open>
  The arithmetic of \<open>float\<close> and \<open>double\<close>: the result of an addition is the exact sum
  rounded to the nearest number of 24, respectively 53, significant bits, a tie going to
  the even one. \<open>expo x\<close> is the binary exponent of \<open>x\<close>, \<open>ulp p x\<close> the distance of the
  numbers of \<open>p\<close> significant bits around \<open>x\<close>, \<open>rne\<close> the rounding of a real to the
  nearest integer with ties to even. The exponent has no bounds here: overflow to infinity,
  subnormal numbers and NaN are outside the model. A \<open>float\<close> converts to a \<open>double\<close>
  without change.
\<close>

definition expo :: "real \<Rightarrow> int" where
  "expo x = \<lfloor>log 2 \<bar>x\<bar>\<rfloor>"

definition ulp :: "nat \<Rightarrow> real \<Rightarrow> real" where
  "ulp p x = 2 powr real_of_int (expo x - int p + 1)"

definition rne :: "real \<Rightarrow> int" where
  "rne z =
     (let n = \<lfloor>z\<rfloor>; f = z - of_int n in
      if f < 1 / 2 then n else if 1 / 2 < f then n + 1 else if even n then n else n + 1)"

definition round_to :: "nat \<Rightarrow> real \<Rightarrow> real" where
  "round_to p x = (if x = 0 then 0 else of_int (rne (x / ulp p x)) * ulp p x)"

















definition to_double :: "real \<Rightarrow> real" where
  "to_double = round_to 53"

definition to_float :: "real \<Rightarrow> real" where
  "to_float = round_to 24"









text \<open>
  \<open>class Token\<close>. A \<open>Token*\<close> is an address into the token store (a list of tokens,
  the address being the position), \<open>NULL\<close> is \<open>None\<close>. An address outside the store is
  a wild pointer: the model reports \<open>BadPointer\<close> where the source dereferences it.
  The members \<open>arc_\<close>, \<open>prev_\<close>, \<open>ref_count_\<close> and \<open>cost_\<close> are the fields \<open>arc_of\<close>,
  \<open>prev_of\<close>, \<open>ref_count\<close> and \<open>cost\<close> (a name of HOL cannot end with an underscore).
\<close>

record Token =
  arc_of :: Arc
  prev_of :: "nat option"
  ref_count :: int32
  cost :: real

type_synonym store = "Token list"

text \<open>\<open>Token()\<close>: \<open>prev_(NULL), ref_count_(1)\<close>; the two other fields keep whatever the
  memory held, here the arguments \<open>a\<close> and \<open>c\<close>.\<close>

definition Token_default :: "Arc \<Rightarrow> real \<Rightarrow> Token" where
  "Token_default a c = \<lparr>arc_of = a, prev_of = None, ref_count = 1, cost = c\<rparr>"

text \<open>\<open>void Init(const Arc &arc, float ac_cost, Token *prev)\<close>, run on the token at
  address \<open>this\<close>, statement by statement. \<open>prev->cost_ + arc.weight + ac_cost\<close> is two
  additions in \<open>double\<close>, from the left; \<open>arc.weight + ac_cost\<close> is one addition in
  \<open>float\<close>.\<close>

definition Init_ac :: "nat \<Rightarrow> Arc \<Rightarrow> real \<Rightarrow> nat option \<Rightarrow> store \<Rightarrow> error + store" where
  "Init_ac this arc ac_cost prev h =
     (if this < length h then
        let h1 = h[this := (h ! this)\<lparr>arc_of := arc, prev_of := prev, ref_count := 1\<rparr>] in
        (case prev of
           Some p \<Rightarrow>
             if p < length h1 then
               let h2 = h1[p := (h1 ! p)\<lparr>ref_count := ref_count (h1 ! p) + 1\<rparr>] in
               Inr (h2[this := (h2 ! this)\<lparr>cost :=
                      to_double (to_double (cost (h2 ! p) + weight arc) + ac_cost)\<rparr>])
             else Inl BadPointer
         | None \<Rightarrow> Inr (h1[this := (h1 ! this)\<lparr>cost := to_float (weight arc + ac_cost)\<rparr>]))
      else Inl BadPointer)"

text \<open>\<open>void Init(const Arc &arc, Token *prev)\<close>: the overload for a step that consumes
  no frame; one addition in \<open>double\<close>, and at a root the weight as it is.\<close>

definition Init :: "nat \<Rightarrow> Arc \<Rightarrow> nat option \<Rightarrow> store \<Rightarrow> error + store" where
  "Init this arc prev h =
     (if this < length h then
        let h1 = h[this := (h ! this)\<lparr>arc_of := arc, prev_of := prev, ref_count := 1\<rparr>] in
        (case prev of
           Some p \<Rightarrow>
             if p < length h1 then
               let h2 = h1[p := (h1 ! p)\<lparr>ref_count := ref_count (h1 ! p) + 1\<rparr>] in
               Inr (h2[this := (h2 ! this)\<lparr>cost := to_double (cost (h2 ! p) + weight arc)\<rparr>])
             else Inl BadPointer
         | None \<Rightarrow> Inr (h1[this := (h1 ! this)\<lparr>cost := weight arc\<rparr>]))
      else Inl BadPointer)"

text \<open>\<open>bool operator < (const Token &other)\<close>: \<open>return cost_ > other.cost_\<close>.\<close>

definition Token_less :: "Token \<Rightarrow> Token \<Rightarrow> bool" where
  "Token_less t other = (cost t > cost other)"

text \<open>
  \<open>class FasterDecoder\<close>, its data members. \<open>toks_\<close> is the list of the entries of the
  hash list (hash-list.h is not part of the sources at hand), each a state identifier
  with its token; the type of the token is left open, so that the record serves a store
  of pointers as well as hypotheses held by value. \<open>fst_\<close> is a constant reference and is
  passed to the operations that read it; \<open>queue_\<close> and \<open>tmp_array_\<close> are temporaries of
  the operations that use them; \<open>token_pool_\<close> belongs to the token store.
\<close>

record 'tok FasterDecoder =
  toks :: "(int32 \<times> 'tok) list"
  config :: FasterDecoderOptions
  num_frames_decoded :: int32

text \<open>\<open>void SetOptions(const FasterDecoderOptions &config) { config_ = config; }\<close>\<close>

definition SetOptions :: "'tok FasterDecoder \<Rightarrow> FasterDecoderOptions \<Rightarrow> 'tok FasterDecoder" where
  "SetOptions d c = d\<lparr>config := c\<rparr>"

text \<open>\<open>int32_t NumFramesDecoded() const\<close>\<close>

definition NumFramesDecoded :: "'tok FasterDecoder \<Rightarrow> int32" where
  "NumFramesDecoded d = num_frames_decoded d"

text \<open>
  Modelled from the spec: \<open>IObjectPool<Token>\<close> of object-pool.h, which is not part of
  the sources at hand. The spec's pooled allocator takes a record back for reuse; the pool
  is the list of the recycled addresses, the latest first.
\<close>

definition pool_Delete :: "nat \<Rightarrow> nat list \<Rightarrow> nat list" where
  "pool_Delete tok pool = tok # pool"

text \<open>
  \<open>static void TokenDelete(Token *tok, IObjectPool<Token> *token_pool)\<close>. The loop
  \<open>while (--tok->ref_count_ == 0)\<close> is a recursion on the predecessor; it ends because
  every round takes one token of the store from count 1 to count 0. The decrement wraps
  around, as the machine's does. \<open>CHECK(tok->ref_count_ > 0)\<close> is the result
  \<open>CheckFailed\<close>.
\<close>

lemma filter_update_less:
  "i < length h \<Longrightarrow> P (h ! i) \<Longrightarrow> \<not> P x \<Longrightarrow>
     length (filter P (h[i := x])) < length (filter P h)"
proof (induction h arbitrary: i)
  case Nil
  then show ?case by simp
next
  case (Cons a h)
  show ?case
  proof (cases i)
    case 0
    with Cons.prems show ?thesis by simp
  next
    case (Suc j)
    with Cons.prems Cons.IH [of j] show ?thesis by simp
  qed
qed

function TokenDelete :: "nat \<Rightarrow> store \<times> nat list \<Rightarrow> error + store \<times> nat list" where
  "TokenDelete tok (h, pool) =
     (if tok < length h then
        let h1 = h[tok := (h ! tok)\<lparr>ref_count := ref_count (h ! tok) - 1\<rparr>] in
        if ref_count (h1 ! tok) = 0 then
          (case prev_of (h1 ! tok) of
             None \<Rightarrow> Inr (h1, pool_Delete tok pool)
           | Some prev \<Rightarrow> TokenDelete prev (h1, pool_Delete tok pool))
        else if 0 < sint (ref_count (h1 ! tok)) then Inr (h1, pool)
        else Inl CheckFailed
      else Inl BadPointer)"
  by pat_completeness auto
termination
proof (relation "measure (\<lambda>(tok, h, pool). length (filter (\<lambda>t. ref_count t = 1) h))")
  show "wf (measure (\<lambda>(tok, h, pool). length (filter (\<lambda>t. ref_count t = 1) h)))"
    by simp
next
  fix tok :: nat and h :: store and pool :: "nat list" and h1 prev
  assume a: "tok < length h"
    and h1: "h1 = h[tok := (h ! tok)\<lparr>ref_count := ref_count (h ! tok) - 1\<rparr>]"
    and z: "ref_count (h1 ! tok) = 0"
  from a h1 z have one: "ref_count (h ! tok) = 1" by simp
  have "length (filter (\<lambda>t. ref_count t = 1) (h[tok := (h ! tok)\<lparr>ref_count := ref_count (h ! tok) - 1\<rparr>]))
      < length (filter (\<lambda>t. ref_count t = 1) h)"
    by (rule filter_update_less) (use a one in simp_all)
  then show "((prev, h1, pool_Delete tok pool), tok, h, pool)
      \<in> measure (\<lambda>(tok, h, pool). length (filter (\<lambda>t. ref_count t = 1) h))"
    by (simp add: h1)
qed


declare TokenDelete.simps [simp del]

text \<open>
  What a successful \<open>TokenDelete\<close> has done to a store \<open>h\<close> and a pool: the pool has
  grown by the tokens \<open>rel\<close>, all different, each of count 1 before and count 0 after;
  any other token is as before, or has its count lowered by one to a positive value.
\<close>

definition released :: "store \<Rightarrow> nat list \<Rightarrow> store \<Rightarrow> nat list \<Rightarrow> bool" where
  "released h pool h' pool' \<longleftrightarrow>
     length h' = length h \<and>
     (\<exists>rel. pool' = rel @ pool \<and> distinct rel \<and>
        (\<forall>a\<in>set rel. a < length h \<and> ref_count (h ! a) = 1 \<and> h' ! a = (h ! a)\<lparr>ref_count := 0\<rparr>) \<and>
        (\<forall>i<length h. i \<notin> set rel \<longrightarrow>
            h' ! i = h ! i \<or>
            h' ! i = (h ! i)\<lparr>ref_count := ref_count (h ! i) - 1\<rparr> \<and> 0 < sint (ref_count (h' ! i))))"

section \<open>The search, modelled from the spec\<close>

text \<open>
  Modelled from the spec: the hypothesis of the search as a value. The bodies of the
  decoder's operations (faster-decoder.cc) are not part of the sources at hand, so the
  search is written down from the spec's sections 3 and 4. A hypothesis has the transition
  taken, the predecessor (none for a path root) and the cumulative cost; the reference count
  only manages the shared records and is treated with the token store above.
\<close>

datatype hypothesis =
  Hypothesis (transition: Arc) (predecessor: "hypothesis option") (cumulative_cost: real)

text \<open>
  Modelled from the spec: \<open>create(transition, predecessor, acousticCost?)\<close> of section 4.1,
  with the cumulative cost of section 3.
\<close>

definition create :: "Arc \<Rightarrow> hypothesis option \<Rightarrow> real option \<Rightarrow> hypothesis" where
  "create t pred ac =
     Hypothesis t pred
       ((case pred of None \<Rightarrow> 0 | Some p \<Rightarrow> cumulative_cost p) + weight t
         + (case ac of None \<Rightarrow> 0 | Some c \<Rightarrow> c))"

text \<open>
  Modelled from the spec: the active-state index of section 4.2 (hash-list.h is not part
  of the sources at hand), as the list of its entries. \<open>upsert\<close> inserts if the state is
  absent and otherwise replaces the hypothesis only if the new one is strictly cheaper;
  \<open>drain\<close> hands out every entry and leaves the index empty. \<open>generation\<close> is the index
  after the candidates \<open>cs\<close> have been upserted, in this order, into a drained index.
\<close>

type_synonym index = "(int32 \<times> hypothesis) list"

definition lookup :: "index \<Rightarrow> int32 \<Rightarrow> hypothesis option" where
  "lookup idx s = map_of idx s"

fun upsert :: "int32 \<Rightarrow> hypothesis \<Rightarrow> index \<Rightarrow> index" where
  "upsert s hyp [] = [(s, hyp)]"
| "upsert s hyp ((k, old) # es) =
     (if k = s then
        (if cumulative_cost hyp < cumulative_cost old then (k, hyp) # es else (k, old) # es)
      else (k, old) # upsert s hyp es)"

definition drain :: "index \<Rightarrow> index \<times> index" where
  "drain idx = (idx, [])"

definition generation :: "(int32 \<times> hypothesis) list \<Rightarrow> index" where
  "generation cs = foldl (\<lambda>idx (s, hyp). upsert s hyp idx) (snd (drain [])) cs"

text \<open>
  The index holds, for every state, the cheapest of the candidates \<open>cs\<close> seen for it.
\<close>

definition seen_min :: "(int32 \<times> hypothesis) list \<Rightarrow> index \<Rightarrow> bool" where
  "seen_min cs idx \<longleftrightarrow>
     (\<forall>s. (case lookup idx s of
             None \<Rightarrow> \<forall>h. (s, h) \<notin> set cs
           | Some e \<Rightarrow> (s, e) \<in> set cs \<and> (\<forall>h. (s, h) \<in> set cs \<longrightarrow> cumulative_cost e \<le> cumulative_cost h)))"

text \<open>
  Modelled from the spec: the traceback of section 4.6, which walks the predecessors from
  the selected hypothesis to the root and collects the output label of each transition
  taken. The root stands for the start of the path, before any transition is taken, and
  gives no label: in the spec's scenario A one transition is taken and the path is its one
  label.
\<close>

fun trace_labels :: "hypothesis \<Rightarrow> int32 list" where
  "trace_labels (Hypothesis t pred c) =
     (case pred of None \<Rightarrow> [] | Some p \<Rightarrow> olabel t # trace_labels p)"

text \<open>
  Modelled from the spec: the graph collaborator of section 6 (fst.h is not part of the
  sources at hand): a start state, the outgoing transitions of each state and the optional
  final cost of each state.
\<close>

record Fst =
  start :: int32
  arcs :: "int32 \<Rightarrow> Arc list"
  final :: "int32 \<Rightarrow> real option"

text \<open>
  Modelled from the spec and the comment of the header: \<open>reachedFinal()\<close> and
  \<open>getBestPath(useFinalProbs)\<close> of section 4.6, over the active generation.
  \<open>select_best\<close> is the scan for the cheapest entry; the first of several cheapest entries
  is kept. \<open>best_hypothesis\<close> is the selection: with final costs in use and a final state
  active only the entries of a final state are scanned, otherwise all entries by plain
  cost. \<open>GetBestPath\<close> ``returns true if the output best path was not the empty'' one, as
  the header says: it fails on an empty generation, and also when the selected hypothesis
  is the root (the spec's scenario D, no frame and a start state that is not final).
\<close>

definition ReachedFinal :: "Fst \<Rightarrow> index \<Rightarrow> bool" where
  "ReachedFinal g idx = list_ex (\<lambda>(s, h). final g s \<noteq> None) idx"

fun select_best :: "(int32 \<times> hypothesis \<Rightarrow> real) \<Rightarrow> (int32 \<times> hypothesis) option
    \<Rightarrow> index \<Rightarrow> (int32 \<times> hypothesis) option" where
  "select_best key best [] = best"
| "select_best key best (e # es) =
     select_best key
       (case best of None \<Rightarrow> Some e | Some b \<Rightarrow> if key e < key b then Some e else Some b) es"

definition with_final :: "Fst \<Rightarrow> int32 \<times> hypothesis \<Rightarrow> real" where
  "with_final g = (\<lambda>(s, h). cumulative_cost h + (case final g s of None \<Rightarrow> 0 | Some f \<Rightarrow> f))"

definition best_hypothesis :: "Fst \<Rightarrow> index \<Rightarrow> bool \<Rightarrow> (int32 \<times> hypothesis) option" where
  "best_hypothesis g idx use_final_probs =
     (if use_final_probs \<and> ReachedFinal g idx
      then select_best (with_final g) None (filter (\<lambda>(s, h). final g s \<noteq> None) idx)
      else select_best (\<lambda>(s, h). cumulative_cost h) None idx)"

definition GetBestPath :: "Fst \<Rightarrow> index \<Rightarrow> bool \<Rightarrow> int32 list option" where
  "GetBestPath g idx use_final_probs =
     (case best_hypothesis g idx use_final_probs of
        None \<Rightarrow> None
      | Some (s, h) \<Rightarrow>
          (let results = rev (trace_labels h) in if results = [] then None else Some results))"

text \<open>
  Modelled from the spec: the cutoff engine of section 4.3 (the body of \<open>GetCutoff\<close> is
  not part of the sources at hand). \<open>admitted c costs\<close> counts the candidates of cost at
  most \<open>c\<close>.
\<close>

definition admitted :: "real \<Rightarrow> real list \<Rightarrow> nat" where
  "admitted c costs = length (filter (\<lambda>x. x \<le> c) costs)"

lemma admitted_less_Max:
  assumes "admitted c costs < length costs"
  shows "costs \<noteq> [] \<and> c < Max (set costs)"
proof -
  from assms have "\<exists>x\<in>set costs. \<not> x \<le> c"
    unfolding admitted_def by (metis filter_True nat_neq_iff)
  then obtain x where x: "x \<in> set costs" "c < x" by auto
  then have "x \<le> Max (set costs)" by simp
  with x(2) have "c < Max (set costs)" by linarith
  moreover from x(1) have "costs \<noteq> []" by auto
  ultimately show ?thesis by simp
qed

text \<open>
  Modelled from the spec: the relaxation of the cutoff ``using \<open>beamDelta\<close> increments
  until \<open>minActive\<close> is reached or all candidates are exhausted''. A step that is not
  positive relaxes nothing. The loop ends because every increment brings the cutoff one
  step closer to the largest cost.
\<close>

function relax :: "real \<Rightarrow> nat \<Rightarrow> real list \<Rightarrow> real \<Rightarrow> real" where
  "relax delta target costs cutoff =
     (if 0 < delta \<and> admitted cutoff costs < target \<and> admitted cutoff costs < length costs
      then relax delta target costs (cutoff + delta)
      else cutoff)"
  by pat_completeness auto
termination
proof (relation "measure (\<lambda>(delta, target, costs, cutoff). nat \<lceil>(Max (set costs) - cutoff) / delta\<rceil>)")
  show "wf (measure (\<lambda>(delta, target, costs, cutoff). nat \<lceil>(Max (set costs) - cutoff) / delta\<rceil>))"
    by simp
next
  fix delta :: real and target :: nat and costs :: "real list" and cutoff :: real
  assume a: "0 < delta \<and> admitted cutoff costs < target \<and> admitted cutoff costs < length costs"
  then have d: "0 < delta" and lt: "cutoff < Max (set costs)"
    using admitted_less_Max [of cutoff costs] by simp_all
  let ?m = "(Max (set costs) - cutoff) / delta"
  have pos: "0 < ?m" using d lt by simp
  have eq: "(Max (set costs) - (cutoff + delta)) / delta = ?m - 1"
    using d by (simp add: field_simps)
  have "\<lceil>?m - 1\<rceil> = \<lceil>?m\<rceil> - 1" by simp
  moreover have "0 < \<lceil>?m\<rceil>" using pos by simp
  ultimately have "nat \<lceil>?m - 1\<rceil> < nat \<lceil>?m\<rceil>" by simp
  then show "((delta, target, costs, cutoff + delta), delta, target, costs, cutoff)
    \<in> measure (\<lambda>(delta, target, costs, cutoff). nat \<lceil>(Max (set costs) - cutoff) / delta\<rceil>)"
    by (simp add: eq)
qed

declare relax.simps [simp del]

text \<open>
  Modelled from the spec: \<open>GetCutoff\<close>, with the output \<open>(cutoffCost, bestHypothesis,
  candidateCount, effectiveBeam)\<close>. One scan finds the cheapest candidate and the count;
  the initial cutoff is the minimum plus the beam (\<open>naive_cutoff\<close>; over no candidate the
  minimum is taken as 0). If it admits more than \<open>maxActive\<close> candidates, the cutoff is the
  cost of the \<open>maxActive\<close>-th smallest candidate (the smallest, when \<open>maxActive\<close> is below
  1). If it admits fewer than \<open>minActive\<close> and not all, the cutoff is relaxed. The effective
  beam is the distance from the minimum to the cutoff.
\<close>

definition naive_cutoff :: "FasterDecoderOptions \<Rightarrow> index \<Rightarrow> real" where
  "naive_cutoff cfg cands =
     (case select_best (\<lambda>(s, h). cumulative_cost h) None cands of
        None \<Rightarrow> 0 | Some (s, h) \<Rightarrow> cumulative_cost h) + beam cfg"

definition GetCutoff ::
  "FasterDecoderOptions \<Rightarrow> index \<Rightarrow> real \<times> (int32 \<times> hypothesis) option \<times> nat \<times> real" where
  "GetCutoff cfg cands =
     (let costs = map (\<lambda>(s, h). cumulative_cost h) cands;
          count = length cands;
          best = select_best (\<lambda>(s, h). cumulative_cost h) None cands;
          naive = naive_cutoff cfg cands;
          cutoff =
            (if cands \<noteq> [] \<and> sint (max_active cfg) < int (admitted naive costs)
               then sort costs ! (nat (sint (max_active cfg)) - 1)
             else if int (admitted naive costs) < sint (min_active cfg) \<and> admitted naive costs < count
               then relax (beam_delta cfg) (nat (sint (min_active cfg))) costs naive
             else naive)
      in (cutoff, best, count, cutoff - (naive - beam cfg)))"

text \<open>
  Modelled from the spec: the non-emitting pass of section 4.5 (the body of
  \<open>ProcessNonemitting\<close> is not part of the sources at hand). The work queue is seeded with
  every state of the index. For a state taken from the queue, each outgoing frame-free
  transition gives a destination cost, the source cost plus the graph weight; if that is
  within the cutoff and improves or newly creates the entry of the destination, the
  hypothesis is upserted and the destination is put on the queue unless it is pending. The
  pass is over when the queue is empty; a pass that never ends is the value \<open>None\<close>.
\<close>

definition expand_free :: "real \<Rightarrow> hypothesis \<Rightarrow> Arc \<Rightarrow> index \<times> int32 list \<Rightarrow> index \<times> int32 list" where
  "expand_free cutoff src a = (\<lambda>(idx, queue).
     if consumes_frame a then (idx, queue)
     else
       let hyp = create a (Some src) None; dst = next_state a in
       if cumulative_cost hyp \<le> cutoff
          \<and> (case lookup idx dst of None \<Rightarrow> True
              | Some old \<Rightarrow> cumulative_cost hyp < cumulative_cost old)
       then (upsert dst hyp idx, if dst \<in> set queue then queue else queue @ [dst])
       else (idx, queue))"

definition nonemitting_step :: "Fst \<Rightarrow> real \<Rightarrow> index \<times> int32 list \<Rightarrow> index \<times> int32 list" where
  "nonemitting_step g cutoff = (\<lambda>(idx, queue).
     case queue of
       [] \<Rightarrow> (idx, queue)
     | s # rest \<Rightarrow>
         (case lookup idx s of
            None \<Rightarrow> (idx, rest)
          | Some src \<Rightarrow> fold (expand_free cutoff src) (arcs g s) (idx, rest)))"

definition ProcessNonemitting :: "Fst \<Rightarrow> real \<Rightarrow> index \<Rightarrow> index option" where
  "ProcessNonemitting g cutoff idx =
     map_option fst
       (while_option (\<lambda>(idx, queue). queue \<noteq> []) (nonemitting_step g cutoff) (idx, map fst idx))"

text \<open>
  Modelled from the spec: the scoring collaborator of section 6 (decodable.h is not part
  of the sources at hand): the number of frames that are ready, and the acoustic cost of a
  frame and a transition.
\<close>

record Decodable =
  num_frames_ready :: int32
  acoustic_cost :: "int32 \<Rightarrow> Arc \<Rightarrow> real"

text \<open>
  Modelled from the spec: the emitting pass of section 4.4 (the body of \<open>ProcessEmitting\<close>
  is not part of the sources at hand). The current generation is drained and the cutoff
  engine run on it; every hypothesis within the cutoff is taken along each outgoing
  frame-consuming transition, with the acoustic cost of the current frame, and upserted
  into the next generation; the frame counter goes up by one and the cutoff is returned.
\<close>

definition expand_emitting ::
  "Fst \<Rightarrow> Decodable \<Rightarrow> int32 \<Rightarrow> real \<Rightarrow> int32 \<times> hypothesis \<Rightarrow> index \<Rightarrow> index" where
  "expand_emitting g dec frame cutoff = (\<lambda>(s, src) next.
     if cumulative_cost src \<le> cutoff then
       fold (\<lambda>a nxt.
               if consumes_frame a
               then upsert (next_state a) (create a (Some src) (Some (acoustic_cost dec frame a))) nxt
               else nxt)
            (arcs g s) next
     else next)"

definition ProcessEmitting ::
  "Fst \<Rightarrow> Decodable \<Rightarrow> hypothesis FasterDecoder \<Rightarrow> hypothesis FasterDecoder \<times> real" where
  "ProcessEmitting g dec d =
     (let (last, emptied) = drain (toks d);
          cutoff = fst (GetCutoff (config d) last);
          next = fold (expand_emitting g dec (num_frames_decoded d) cutoff) last emptied
      in (d\<lparr>toks := next, num_frames_decoded := num_frames_decoded d + 1\<rparr>, cutoff))"

text \<open>
  Modelled from the spec: one frame of the control flow of section 2, the emitting pass and
  then the non-emitting pass with the cutoff that the emitting pass returned; and the loop
  \<open>while (num_frames_decoded_ < target)\<close> over the frames. A frame whose non-emitting pass
  does not end makes the loop undefined (\<open>None\<close>).
\<close>

definition process_frame ::
  "Fst \<Rightarrow> Decodable \<Rightarrow> hypothesis FasterDecoder \<Rightarrow> hypothesis FasterDecoder option" where
  "process_frame g dec d =
     (let (d1, cutoff) = ProcessEmitting g dec d
      in map_option (\<lambda>idx. d1\<lparr>toks := idx\<rparr>) (ProcessNonemitting g cutoff (toks d1)))"

partial_function (option) decode_loop ::
  "Fst \<Rightarrow> Decodable \<Rightarrow> int \<Rightarrow> hypothesis FasterDecoder \<Rightarrow> hypothesis FasterDecoder option" where
  "decode_loop g dec target d =
     (if sint (num_frames_decoded d) < target
      then Option.bind (process_frame g dec d) (decode_loop g dec target)
      else Some d)"

text \<open>
  Modelled from the spec: \<open>initialize()\<close> (the body of \<open>InitDecoding\<close> is not part of the
  sources at hand). The active generation becomes the start state alone, with a path root
  of cost 0 over a transition without label, and the frame counter is 0.
\<close>

definition InitDecoding :: "Fst \<Rightarrow> hypothesis FasterDecoder \<Rightarrow> hypothesis FasterDecoder" where
  "InitDecoding g d =
     d\<lparr>toks := upsert (start g)
                 (create \<lparr>next_state = start g, olabel = 0, weight = 0, consumes_frame = False\<rparr>
                    None None)
                 (snd (drain (toks d))),
       num_frames_decoded := 0\<rparr>"

text \<open>
  Modelled from the spec and the comment of the header: \<open>AdvanceDecoding\<close> decodes until
  no more frames are ready, and no more than \<open>max_num_frames\<close> frames if that is not
  negative; \<open>Decode\<close> initialises and runs to exhaustion.
\<close>

definition AdvanceDecoding ::
  "Fst \<Rightarrow> Decodable \<Rightarrow> int32 \<Rightarrow> hypothesis FasterDecoder \<Rightarrow> hypothesis FasterDecoder option" where
  "AdvanceDecoding g dec max_num_frames d =
     (let target =
        (if 0 \<le> sint max_num_frames
         then min (sint (num_frames_ready dec)) (sint (num_frames_decoded d) + sint max_num_frames)
         else sint (num_frames_ready dec))
      in decode_loop g dec target d)"

definition Decode :: "Fst \<Rightarrow> Decodable \<Rightarrow> hypothesis FasterDecoder \<Rightarrow> hypothesis FasterDecoder option" where
  "Decode g dec d = decode_loop g dec (sint (num_frames_ready dec)) (InitDecoding g d)"

section \<open>The comparison operator of tokens\<close>

text \<open>
  C10. The comparison operator of tokens is inverted relative to cost: for every pair of
  tokens \<open>t1\<close> and \<open>t2\<close>, \<open>t1 < t2\<close> holds if and only if the cumulative cost of \<open>t1\<close>
  is strictly greater than that of \<open>t2\<close>; so the operator ranks the token of higher cost
  (the worse hypothesis) as the smaller one, and never ranks two tokens both ways.
\<close>

theorem Token_less_inverts_cost:
  "(Token_less t1 t2 \<longleftrightarrow> cost t2 < cost t1) \<and> \<not> (Token_less t1 t2 \<and> Token_less t2 t1)"
  by (auto simp: Token_less_def)

section \<open>The cumulative cost of a token\<close>




section \<open>The life of a token\<close>

lemma TokenDelete_released:
  "TokenDelete tok m = Inr (h', pool') \<Longrightarrow> released (fst m) (snd m) h' pool'"
proof (induction tok m arbitrary: h' pool' rule: TokenDelete.induct)
  case (1 tok h pool)
  let ?h1 = "h[tok := (h ! tok)\<lparr>ref_count := ref_count (h ! tok) - 1\<rparr>]"
  from "1.prems" have valid: "tok < length h"
    by (simp add: TokenDelete.simps split: if_splits)
  show ?case
  proof (cases "ref_count (h ! tok) = 1")
    case False
    with valid "1.prems" have "h' = ?h1" "pool' = pool" "0 < sint (ref_count (?h1 ! tok))"
      by (auto simp: TokenDelete.simps Let_def split: if_splits)
    with valid show ?thesis
      unfolding released_def by (auto simp: nth_list_update)
  next
    case True
    then have z: "ref_count (?h1 ! tok) = 0" using valid by simp
    show ?thesis
    proof (cases "prev_of (h ! tok)")
      case None
      with valid True "1.prems" have "h' = ?h1" "pool' = tok # pool"
        by (auto simp: TokenDelete.simps Let_def pool_Delete_def split: if_splits)
      with valid True show ?thesis
        unfolding released_def by (auto simp: nth_list_update intro!: exI [of _ "[tok]"])
    next
      case (Some q)
      with valid True "1.prems" have rec: "TokenDelete q (?h1, pool_Delete tok pool) = Inr (h', pool')"
        by (auto simp: TokenDelete.simps Let_def split: if_splits)
      have "released (fst (?h1, pool_Delete tok pool)) (snd (?h1, pool_Delete tok pool)) h' pool'"
        by (rule "1.IH" [OF valid refl z _ rec]) (use Some valid in simp)
      then obtain rel where len: "length h' = length h"
        and pool': "pool' = rel @ tok # pool" and dist: "distinct rel"
        and rel: "\<forall>a\<in>set rel. a < length h \<and> ref_count (?h1 ! a) = 1 \<and> h' ! a = (?h1 ! a)\<lparr>ref_count := 0\<rparr>"
        and rest: "\<forall>i<length h. i \<notin> set rel \<longrightarrow>
            h' ! i = ?h1 ! i \<or>
            h' ! i = (?h1 ! i)\<lparr>ref_count := ref_count (?h1 ! i) - 1\<rparr> \<and> 0 < sint (ref_count (h' ! i))"
        unfolding released_def pool_Delete_def by auto
      have notin: "tok \<notin> set rel"
        using rel z by auto
      from rest valid notin z have tok': "h' ! tok = ?h1 ! tok"
        by (auto simp: nth_list_update)
      show ?thesis
        unfolding released_def
      proof (intro conjI exI [of _ "rel @ [tok]"])
        show "length h' = length (fst (h, pool))" using len by simp
        show "pool' = (rel @ [tok]) @ snd (h, pool)" using pool' by simp
        show "distinct (rel @ [tok])" using dist notin by simp
        show "\<forall>a\<in>set (rel @ [tok]). a < length (fst (h, pool)) \<and> ref_count (fst (h, pool) ! a) = 1
               \<and> h' ! a = (fst (h, pool) ! a)\<lparr>ref_count := 0\<rparr>"
        proof
          fix a assume a: "a \<in> set (rel @ [tok])"
          show "a < length (fst (h, pool)) \<and> ref_count (fst (h, pool) ! a) = 1
               \<and> h' ! a = (fst (h, pool) ! a)\<lparr>ref_count := 0\<rparr>"
          proof (cases "a = tok")
            case True
            with tok' valid \<open>ref_count (h ! tok) = 1\<close> show ?thesis by simp
          next
            case False
            with a have "a \<in> set rel" by simp
            with rel have "a < length h \<and> ref_count (?h1 ! a) = 1 \<and> h' ! a = (?h1 ! a)\<lparr>ref_count := 0\<rparr>"
              by blast
            with False show ?thesis by simp
          qed
        qed
        show "\<forall>i<length (fst (h, pool)). i \<notin> set (rel @ [tok]) \<longrightarrow>
            h' ! i = fst (h, pool) ! i \<or>
            h' ! i = (fst (h, pool) ! i)\<lparr>ref_count := ref_count (fst (h, pool) ! i) - 1\<rparr>
              \<and> 0 < sint (ref_count (h' ! i))"
        proof (intro allI impI)
          fix i assume i: "i < length (fst (h, pool))" "i \<notin> set (rel @ [tok])"
          then have "i \<noteq> tok" "i \<notin> set rel" "i < length h" by auto
          with rest have "h' ! i = ?h1 ! i \<or>
            h' ! i = (?h1 ! i)\<lparr>ref_count := ref_count (?h1 ! i) - 1\<rparr> \<and> 0 < sint (ref_count (h' ! i))"
            by blast
          with \<open>i \<noteq> tok\<close> show "h' ! i = fst (h, pool) ! i \<or>
            h' ! i = (fst (h, pool) ! i)\<lparr>ref_count := ref_count (fst (h, pool) ! i) - 1\<rparr>
              \<and> 0 < sint (ref_count (h' ! i))" by simp
        qed
      qed
    qed
  qed
qed


lemma Init_ac_ref_count:
  assumes "this < length h"
  shows "(\<exists>h'. Init_ac this arc ac_cost None h = Inr h' \<and> length h' = length h
            \<and> ref_count (h' ! this) = 1
            \<and> (\<forall>i<length h. i \<noteq> this \<longrightarrow> h' ! i = h ! i))"
    and "p < length h \<Longrightarrow> p \<noteq> this \<Longrightarrow>
         (\<exists>h'. Init_ac this arc ac_cost (Some p) h = Inr h' \<and> length h' = length h
            \<and> ref_count (h' ! this) = 1
            \<and> h' ! p = (h ! p)\<lparr>ref_count := ref_count (h ! p) + 1\<rparr>
            \<and> (\<forall>i<length h. i \<noteq> this \<longrightarrow> i \<noteq> p \<longrightarrow> h' ! i = h ! i))"
  using assms by (auto simp: Init_ac_def Let_def nth_list_update)

lemma Init_ref_count:
  assumes "this < length h"
  shows "(\<exists>h'. Init this arc None h = Inr h' \<and> length h' = length h
            \<and> ref_count (h' ! this) = 1
            \<and> (\<forall>i<length h. i \<noteq> this \<longrightarrow> h' ! i = h ! i))"
    and "p < length h \<Longrightarrow> p \<noteq> this \<Longrightarrow>
         (\<exists>h'. Init this arc (Some p) h = Inr h' \<and> length h' = length h
            \<and> ref_count (h' ! this) = 1
            \<and> h' ! p = (h ! p)\<lparr>ref_count := ref_count (h ! p) + 1\<rparr>
            \<and> (\<forall>i<length h. i \<noteq> this \<longrightarrow> i \<noteq> p \<longrightarrow> h' ! i = h ! i))"
  using assms by (auto simp: Init_def Let_def nth_list_update)

lemma TokenDelete_step:
  assumes "tok < length h"
  shows "TokenDelete tok (h, pool) =
     (if ref_count (h ! tok) = 1 then
        (case prev_of (h ! tok) of
           None \<Rightarrow> Inr (h[tok := (h ! tok)\<lparr>ref_count := 0\<rparr>], tok # pool)
         | Some prev \<Rightarrow> TokenDelete prev (h[tok := (h ! tok)\<lparr>ref_count := 0\<rparr>], tok # pool))
      else if 0 < sint (ref_count (h ! tok) - 1)
        then Inr (h[tok := (h ! tok)\<lparr>ref_count := ref_count (h ! tok) - 1\<rparr>], pool)
      else Inl CheckFailed)"
  using assms by (auto simp: TokenDelete.simps [of tok h pool] Let_def pool_Delete_def split: option.splits)

text \<open>
  C4. Creation (the default constructor and both overloads of \<open>Init\<close>, on a record other
  than the predecessor) gives a record of reference count 1 and raises the count of the
  predecessor by one when there is one, touching no other token. \<open>TokenDelete\<close>
  lowers the count of its token by one; exactly when the count reaches zero it hands the
  record to the pool and goes on with the predecessor, and so up the chain. A record
  reaches the pool in no other way: whatever a successful \<open>TokenDelete\<close> adds to the pool
  had count 1 and has count 0, and \<open>Init\<close> has no access to the pool.
\<close>

theorem token_lifecycle:
  assumes "this < length h" and "tok < length h"
  shows "ref_count (Token_default a c) = 1
    \<and> (\<exists>h'. Init_ac this arc ac_cost None h = Inr h' \<and> length h' = length h
            \<and> ref_count (h' ! this) = 1
            \<and> (\<forall>i<length h. i \<noteq> this \<longrightarrow> h' ! i = h ! i))
    \<and> (\<exists>h'. Init this arc None h = Inr h' \<and> length h' = length h
            \<and> ref_count (h' ! this) = 1
            \<and> (\<forall>i<length h. i \<noteq> this \<longrightarrow> h' ! i = h ! i))
    \<and> (p < length h \<and> p \<noteq> this \<longrightarrow>
         (\<exists>h'. Init_ac this arc ac_cost (Some p) h = Inr h' \<and> length h' = length h
            \<and> ref_count (h' ! this) = 1
            \<and> h' ! p = (h ! p)\<lparr>ref_count := ref_count (h ! p) + 1\<rparr>
            \<and> (\<forall>i<length h. i \<noteq> this \<longrightarrow> i \<noteq> p \<longrightarrow> h' ! i = h ! i))
       \<and> (\<exists>h'. Init this arc (Some p) h = Inr h' \<and> length h' = length h
            \<and> ref_count (h' ! this) = 1
            \<and> h' ! p = (h ! p)\<lparr>ref_count := ref_count (h ! p) + 1\<rparr>
            \<and> (\<forall>i<length h. i \<noteq> this \<longrightarrow> i \<noteq> p \<longrightarrow> h' ! i = h ! i)))
    \<and> TokenDelete tok (h, pool) =
         (if ref_count (h ! tok) = 1 then
            (case prev_of (h ! tok) of
               None \<Rightarrow> Inr (h[tok := (h ! tok)\<lparr>ref_count := 0\<rparr>], tok # pool)
             | Some prev \<Rightarrow> TokenDelete prev (h[tok := (h ! tok)\<lparr>ref_count := 0\<rparr>], tok # pool))
          else if 0 < sint (ref_count (h ! tok) - 1)
            then Inr (h[tok := (h ! tok)\<lparr>ref_count := ref_count (h ! tok) - 1\<rparr>], pool)
          else Inl CheckFailed)
    \<and> (\<forall>h' pool'. TokenDelete tok (h, pool) = Inr (h', pool') \<longrightarrow> released h pool h' pool')"
proof (intro conjI)
  show "ref_count (Token_default a c) = 1" by (simp add: Token_default_def)
  show "\<forall>h' pool'. TokenDelete tok (h, pool) = Inr (h', pool') \<longrightarrow> released h pool h' pool'"
    using TokenDelete_released [of tok "(h, pool)"] by simp
  show "TokenDelete tok (h, pool) =
         (if ref_count (h ! tok) = 1 then
            (case prev_of (h ! tok) of
               None \<Rightarrow> Inr (h[tok := (h ! tok)\<lparr>ref_count := 0\<rparr>], tok # pool)
             | Some prev \<Rightarrow> TokenDelete prev (h[tok := (h ! tok)\<lparr>ref_count := 0\<rparr>], tok # pool))
          else if 0 < sint (ref_count (h ! tok) - 1)
            then Inr (h[tok := (h ! tok)\<lparr>ref_count := ref_count (h ! tok) - 1\<rparr>], pool)
          else Inl CheckFailed)"
    by (rule TokenDelete_step [OF assms(2)])
  show "\<exists>h'. Init_ac this arc ac_cost None h = Inr h' \<and> length h' = length h
            \<and> ref_count (h' ! this) = 1
            \<and> (\<forall>i<length h. i \<noteq> this \<longrightarrow> h' ! i = h ! i)"
    by (rule Init_ac_ref_count(1) [OF assms(1)])
  show "\<exists>h'. Init this arc None h = Inr h' \<and> length h' = length h
            \<and> ref_count (h' ! this) = 1
            \<and> (\<forall>i<length h. i \<noteq> this \<longrightarrow> h' ! i = h ! i)"
    by (rule Init_ref_count(1) [OF assms(1)])
  show "p < length h \<and> p \<noteq> this \<longrightarrow>
         (\<exists>h'. Init_ac this arc ac_cost (Some p) h = Inr h' \<and> length h' = length h
            \<and> ref_count (h' ! this) = 1
            \<and> h' ! p = (h ! p)\<lparr>ref_count := ref_count (h ! p) + 1\<rparr>
            \<and> (\<forall>i<length h. i \<noteq> this \<longrightarrow> i \<noteq> p \<longrightarrow> h' ! i = h ! i))
       \<and> (\<exists>h'. Init this arc (Some p) h = Inr h' \<and> length h' = length h
            \<and> ref_count (h' ! this) = 1
            \<and> h' ! p = (h ! p)\<lparr>ref_count := ref_count (h ! p) + 1\<rparr>
            \<and> (\<forall>i<length h. i \<noteq> this \<longrightarrow> i \<noteq> p \<longrightarrow> h' ! i = h ! i))"
  proof (intro impI conjI)
    assume p: "p < length h \<and> p \<noteq> this"
    then have 1: "p < length h" and 2: "p \<noteq> this" by simp_all
    show "\<exists>h'. Init_ac this arc ac_cost (Some p) h = Inr h' \<and> length h' = length h
            \<and> ref_count (h' ! this) = 1
            \<and> h' ! p = (h ! p)\<lparr>ref_count := ref_count (h ! p) + 1\<rparr>
            \<and> (\<forall>i<length h. i \<noteq> this \<longrightarrow> i \<noteq> p \<longrightarrow> h' ! i = h ! i)"
      by (rule Init_ac_ref_count(2) [OF assms(1) 1 2])
    show "\<exists>h'. Init this arc (Some p) h = Inr h' \<and> length h' = length h
            \<and> ref_count (h' ! this) = 1
            \<and> h' ! p = (h ! p)\<lparr>ref_count := ref_count (h ! p) + 1\<rparr>
            \<and> (\<forall>i<length h. i \<noteq> this \<longrightarrow> i \<noteq> p \<longrightarrow> h' ! i = h ! i)"
      by (rule Init_ref_count(2) [OF assms(1) 1 2])
  qed
qed

theorem token_lifecycle_witness:
  "TokenDelete 2
     ([\<lparr>arc_of = \<lparr>next_state = 1, olabel = 0, weight = 1, consumes_frame = True\<rparr>,
         prev_of = None, ref_count = 2, cost = 1\<rparr>,
       \<lparr>arc_of = \<lparr>next_state = 2, olabel = 0, weight = 1, consumes_frame = True\<rparr>,
         prev_of = Some 0, ref_count = 1, cost = 2\<rparr>,
       \<lparr>arc_of = \<lparr>next_state = 3, olabel = 0, weight = 1, consumes_frame = True\<rparr>,
         prev_of = Some 1, ref_count = 1, cost = 3\<rparr>], [])
   = Inr ([\<lparr>arc_of = \<lparr>next_state = 1, olabel = 0, weight = 1, consumes_frame = True\<rparr>,
             prev_of = None, ref_count = 1, cost = 1\<rparr>,
           \<lparr>arc_of = \<lparr>next_state = 2, olabel = 0, weight = 1, consumes_frame = True\<rparr>,
             prev_of = Some 0, ref_count = 0, cost = 2\<rparr>,
           \<lparr>arc_of = \<lparr>next_state = 3, olabel = 0, weight = 1, consumes_frame = True\<rparr>,
             prev_of = Some 1, ref_count = 0, cost = 3\<rparr>], [1, 2])
   \<and> (\<exists>h'. Init 2 \<lparr>next_state = 3, olabel = 0, weight = 1, consumes_frame = True\<rparr> (Some 1)
         [\<lparr>arc_of = \<lparr>next_state = 1, olabel = 0, weight = 1, consumes_frame = True\<rparr>,
             prev_of = None, ref_count = 1, cost = 1\<rparr>,
          \<lparr>arc_of = \<lparr>next_state = 2, olabel = 0, weight = 1, consumes_frame = True\<rparr>,
             prev_of = Some 0, ref_count = 0, cost = 2\<rparr>,
          \<lparr>arc_of = \<lparr>next_state = 3, olabel = 0, weight = 1, consumes_frame = True\<rparr>,
             prev_of = Some 1, ref_count = 0, cost = 3\<rparr>] = Inr h'
        \<and> ref_count (h' ! 2) = 1 \<and> ref_count (h' ! 1) = 1)"
proof -
  let ?x = "\<lparr>next_state = 1, olabel = 0, weight = 1, consumes_frame = True\<rparr>"
  let ?y = "\<lparr>next_state = 2, olabel = 0, weight = 1, consumes_frame = True\<rparr>"
  let ?z = "\<lparr>next_state = 3, olabel = 0, weight = 1, consumes_frame = True\<rparr>"
  let ?h = "[\<lparr>arc_of = ?x, prev_of = None, ref_count = 2, cost = 1\<rparr>,
             \<lparr>arc_of = ?y, prev_of = Some 0, ref_count = 1, cost = 2\<rparr>,
             \<lparr>arc_of = ?z, prev_of = Some 1, ref_count = 1, cost = 3\<rparr>]"
  let ?hb = "[\<lparr>arc_of = ?x, prev_of = None, ref_count = 2, cost = 1\<rparr>,
             \<lparr>arc_of = ?y, prev_of = Some 0, ref_count = 1, cost = 2\<rparr>,
             \<lparr>arc_of = ?z, prev_of = Some 1, ref_count = 0, cost = 3\<rparr>]"
  let ?hc = "[\<lparr>arc_of = ?x, prev_of = None, ref_count = 2, cost = 1\<rparr>,
             \<lparr>arc_of = ?y, prev_of = Some 0, ref_count = 0, cost = 2\<rparr>,
             \<lparr>arc_of = ?z, prev_of = Some 1, ref_count = 0, cost = 3\<rparr>]"
  let ?hd = "[\<lparr>arc_of = ?x, prev_of = None, ref_count = 1, cost = 1\<rparr>,
             \<lparr>arc_of = ?y, prev_of = Some 0, ref_count = 0, cost = 2\<rparr>,
             \<lparr>arc_of = ?z, prev_of = Some 1, ref_count = 0, cost = 3\<rparr>]"
  have two: "(2::nat) < length ?h" and one: "(1::nat) < length ?hb" and zero: "(0::nat) < length ?hc"
    and two': "(2::nat) < length ?hd"
    by simp_all
  have step: "TokenDelete tok (h, pool) =
         (if ref_count (h ! tok) = 1 then
            (case prev_of (h ! tok) of
               None \<Rightarrow> Inr (h[tok := (h ! tok)\<lparr>ref_count := 0\<rparr>], tok # pool)
             | Some prev \<Rightarrow> TokenDelete prev (h[tok := (h ! tok)\<lparr>ref_count := 0\<rparr>], tok # pool))
          else if 0 < sint (ref_count (h ! tok) - 1)
            then Inr (h[tok := (h ! tok)\<lparr>ref_count := ref_count (h ! tok) - 1\<rparr>], pool)
          else Inl CheckFailed)" if "tok < length h" for tok h pool
    by (rule conjunct1 [OF conjunct2 [OF conjunct2 [OF conjunct2 [OF conjunct2
          [OF token_lifecycle [OF that that]]]]]])
  have "TokenDelete 2 (?h, []) = TokenDelete 1 (?hb, [2])"
    by (subst step [OF two]) simp
  also have "\<dots> = TokenDelete 0 (?hc, [1, 2])"
    by (subst step [OF one]) simp
  also have "\<dots> = Inr (?hd, [1, 2])"
    by (subst step [OF zero]) simp
  finally have del: "TokenDelete 2 (?h, []) = Inr (?hd, [1, 2])" .
  have "(1::nat) < length ?hd \<and> (1::nat) \<noteq> 2" by simp
  with conjunct1 [OF conjunct2 [OF conjunct2 [OF conjunct2
          [OF token_lifecycle [OF two' two', of _ _ _ _ 1]]]]]
  have "\<exists>h'. Init 2 ?z (Some 1) ?hd = Inr h' \<and> length h' = length ?hd
            \<and> ref_count (h' ! 2) = 1
            \<and> h' ! 1 = (?hd ! 1)\<lparr>ref_count := ref_count (?hd ! 1) + 1\<rparr>
            \<and> (\<forall>i<length ?hd. i \<noteq> 2 \<longrightarrow> i \<noteq> 1 \<longrightarrow> h' ! i = ?hd ! i)"
    by blast
  then obtain h' where "Init 2 ?z (Some 1) ?hd = Inr h'" "ref_count (h' ! 2) = 1"
    "h' ! 1 = (?hd ! 1)\<lparr>ref_count := ref_count (?hd ! 1) + 1\<rparr>"
    by blast
  then have "Init 2 ?z (Some 1) ?hd = Inr h' \<and> ref_count (h' ! 2) = 1 \<and> ref_count (h' ! 1) = 1"
    by simp
  with del show ?thesis by blast
qed

section \<open>Costs along the predecessor chain\<close>







section \<open>Setting the options\<close>

text \<open>
  C9, as the code has it. \<open>SetOptions\<close> checks nothing: a configuration with
  \<open>min_active > max_active\<close>, a negative beam and a zero hash ratio is taken as it is.
\<close>

theorem SetOptions_counterexample:
  "config (SetOptions \<lparr>toks = ([] :: (int32 \<times> nat) list), config = default_options,
                        num_frames_decoded = 0\<rparr>
             \<lparr>beam = - 1, max_active = 1, min_active = 2, beam_delta = 1 / 2, hash_ratio = 0\<rparr>)
     = \<lparr>beam = - 1, max_active = 1, min_active = 2, beam_delta = 1 / 2, hash_ratio = 0\<rparr>
   \<and> sint (max_active \<lparr>beam = - 1, max_active = 1, min_active = 2, beam_delta = 1 / 2,
                        hash_ratio = 0\<rparr>)
     < sint (min_active \<lparr>beam = - 1, max_active = 1, min_active = 2, beam_delta = 1 / 2,
                        hash_ratio = 0\<rparr>)"
  by (simp add: SetOptions_def)

text \<open>
  C9, amended. \<open>SetOptions\<close> rejects nothing: whatever configuration it is given, also
  one with \<open>min_active > max_active\<close> or with a non-positive beam or hash ratio, becomes
  the configuration of the decoder, and the active tokens and the frame counter stay as
  they are. The default configuration has a positive beam and hash ratio and
  \<open>min_active \<le> max_active\<close>.
\<close>

theorem SetOptions_accepts_all:
  "config (SetOptions d c) = c \<and> toks (SetOptions d c) = toks d
   \<and> NumFramesDecoded (SetOptions d c) = NumFramesDecoded d
   \<and> 0 < beam default_options \<and> 0 < hash_ratio default_options
   \<and> sint (min_active default_options) \<le> sint (max_active default_options)"
  by (simp add: SetOptions_def NumFramesDecoded_def default_options_def)

section \<open>The active-state index\<close>

lemma fst_upsert: "fst ` set (upsert s hyp idx) = insert s (fst ` set idx)"
proof (induction idx)
  case Nil
  then show ?case by simp
next
  case (Cons e idx)
  obtain k old where e: "e = (k, old)" by (cases e)
  show ?case
  proof (cases "k = s")
    case True
    then show ?thesis by (simp add: e)
  next
    case False
    then show ?thesis using Cons by (simp add: e insert_commute)
  qed
qed

lemma distinct_upsert: "distinct (map fst idx) \<Longrightarrow> distinct (map fst (upsert s hyp idx))"
proof (induction idx)
  case Nil
  then show ?case by simp
next
  case (Cons e idx)
  obtain k old where e: "e = (k, old)" by (cases e)
  from Cons have "distinct (map fst (upsert s hyp idx))" by simp
  moreover have "k \<noteq> s \<Longrightarrow> k \<notin> fst ` set idx \<Longrightarrow> k \<notin> fst ` set (upsert s hyp idx)"
    by (simp add: fst_upsert)
  ultimately show ?case using Cons.prems e by auto
qed

lemma lookup_upsert:
  "lookup (upsert s hyp idx) s' =
     (if s' = s then
        (case lookup idx s of None \<Rightarrow> Some hyp
         | Some old \<Rightarrow> if cumulative_cost hyp < cumulative_cost old then Some hyp else Some old)
      else lookup idx s')"
  by (induction idx) (auto simp: lookup_def)

lemma seen_min_upsert:
  assumes "seen_min cs idx"
  shows "seen_min (cs @ [(s, hyp)]) (upsert s hyp idx)"
  unfolding seen_min_def
proof
  fix s'
  from assms have a: "case lookup idx s' of
             None \<Rightarrow> \<forall>h. (s', h) \<notin> set cs
           | Some e \<Rightarrow> (s', e) \<in> set cs \<and> (\<forall>h. (s', h) \<in> set cs \<longrightarrow> cumulative_cost e \<le> cumulative_cost h)"
    unfolding seen_min_def by blast
  show "case lookup (upsert s hyp idx) s' of
             None \<Rightarrow> \<forall>h. (s', h) \<notin> set (cs @ [(s, hyp)])
           | Some e \<Rightarrow> (s', e) \<in> set (cs @ [(s, hyp)])
                \<and> (\<forall>h. (s', h) \<in> set (cs @ [(s, hyp)]) \<longrightarrow> cumulative_cost e \<le> cumulative_cost h)"
    using a by (auto simp: lookup_upsert split: option.splits)
qed

lemma generation_snoc: "generation (cs @ [(s, hyp)]) = upsert s hyp (generation cs)"
  by (simp add: generation_def)

lemma seen_min_generation: "seen_min cs (generation cs)"
proof (induction cs rule: rev_induct)
  case Nil
  then show ?case by (simp add: seen_min_def generation_def drain_def lookup_def)
next
  case (snoc c cs)
  obtain s hyp where c: "c = (s, hyp)" by (cases c)
  show ?case unfolding c generation_snoc by (rule seen_min_upsert [OF snoc])
qed

lemma distinct_generation: "distinct (map fst (generation cs))"
proof (induction cs rule: rev_induct)
  case Nil
  then show ?case by (simp add: generation_def drain_def)
next
  case (snoc c cs)
  obtain s hyp where c: "c = (s, hyp)" by (cases c)
  show ?case unfolding c generation_snoc by (rule distinct_upsert [OF snoc])
qed


text \<open>
  C2. In every generation of the active-state index there is at most one entry for a
  state; an upsert replaces the hypothesis of an existing entry only when the new one has
  a strictly lower cumulative cost, and touches no other state; so the entry of a state is
  one of the candidates seen for that state in the generation, and the cheapest of them.
\<close>

theorem index_keeps_minimum:
  "distinct (map fst (generation cs))
   \<and> (distinct (map fst idx) \<longrightarrow> distinct (map fst (upsert s hyp idx)))
   \<and> lookup (upsert s hyp idx) s =
       (case lookup idx s of None \<Rightarrow> Some hyp
        | Some old \<Rightarrow> if cumulative_cost hyp < cumulative_cost old then Some hyp else Some old)
   \<and> (s' \<noteq> s \<longrightarrow> lookup (upsert s hyp idx) s' = lookup idx s')
   \<and> (\<forall>t h. (t, h) \<in> set cs \<longrightarrow>
         (\<exists>e. lookup (generation cs) t = Some e \<and> (t, e) \<in> set cs
            \<and> (\<forall>h'. (t, h') \<in> set cs \<longrightarrow> cumulative_cost e \<le> cumulative_cost h')))
   \<and> (\<forall>t e. lookup (generation cs) t = Some e \<longrightarrow> (t, e) \<in> set cs)"
proof (intro conjI allI impI)
  show "distinct (map fst (generation cs))" by (rule distinct_generation)
  show "distinct (map fst (upsert s hyp idx))" if "distinct (map fst idx)"
    using that by (rule distinct_upsert)
  show "lookup (upsert s hyp idx) s =
       (case lookup idx s of None \<Rightarrow> Some hyp
        | Some old \<Rightarrow> if cumulative_cost hyp < cumulative_cost old then Some hyp else Some old)"
    by (simp add: lookup_upsert)
  show "lookup (upsert s hyp idx) s' = lookup idx s'" if "s' \<noteq> s"
    using that by (simp add: lookup_upsert)
next
  fix t h assume "(t, h) \<in> set cs"
  with seen_min_generation [of cs]
  show "\<exists>e. lookup (generation cs) t = Some e \<and> (t, e) \<in> set cs
            \<and> (\<forall>h'. (t, h') \<in> set cs \<longrightarrow> cumulative_cost e \<le> cumulative_cost h')"
    unfolding seen_min_def by (cases "lookup (generation cs) t") (auto split: option.splits dest: spec [of _ t])
next
  fix t e assume "lookup (generation cs) t = Some e"
  with seen_min_generation [of cs] show "(t, e) \<in> set cs"
    unfolding seen_min_def by (auto split: option.splits dest: spec [of _ t])
qed

theorem index_keeps_minimum_witness:
  "lookup (generation
      [(1, Hypothesis \<lparr>next_state = 1, olabel = 5, weight = 1, consumes_frame = True\<rparr> None (7 / 2)),
       (1, Hypothesis \<lparr>next_state = 1, olabel = 6, weight = 1, consumes_frame = True\<rparr> None 2),
       (2, Hypothesis \<lparr>next_state = 2, olabel = 7, weight = 1, consumes_frame = True\<rparr> None 1),
       (1, Hypothesis \<lparr>next_state = 1, olabel = 8, weight = 1, consumes_frame = True\<rparr> None 2)]) 1
     = Some (Hypothesis \<lparr>next_state = 1, olabel = 6, weight = 1, consumes_frame = True\<rparr> None 2)
   \<and> map fst (generation
      [(1, Hypothesis \<lparr>next_state = 1, olabel = 5, weight = 1, consumes_frame = True\<rparr> None (7 / 2)),
       (1, Hypothesis \<lparr>next_state = 1, olabel = 6, weight = 1, consumes_frame = True\<rparr> None 2),
       (2, Hypothesis \<lparr>next_state = 2, olabel = 7, weight = 1, consumes_frame = True\<rparr> None 1),
       (1, Hypothesis \<lparr>next_state = 1, olabel = 8, weight = 1, consumes_frame = True\<rparr> None 2)])
     = [1, 2]"
  using index_keeps_minimum [of
      "[(1, Hypothesis \<lparr>next_state = 1, olabel = 5, weight = 1, consumes_frame = True\<rparr> None (7 / 2)),
       (1, Hypothesis \<lparr>next_state = 1, olabel = 6, weight = 1, consumes_frame = True\<rparr> None 2),
       (2, Hypothesis \<lparr>next_state = 2, olabel = 7, weight = 1, consumes_frame = True\<rparr> None 1),
       (1, Hypothesis \<lparr>next_state = 1, olabel = 8, weight = 1, consumes_frame = True\<rparr> None 2)]"
      "[]" 1 "Hypothesis \<lparr>next_state = 1, olabel = 5, weight = 1, consumes_frame = True\<rparr> None (7 / 2)" 2]
  by (simp add: generation_def drain_def lookup_def)

section \<open>The best path\<close>



lemma select_best_None:
  "select_best key None es = (case es of [] \<Rightarrow> None | e # es' \<Rightarrow> select_best key (Some e) es')"
  by (cases es) auto












section \<open>The cutoff engine\<close>















section \<open>The non-emitting pass ends\<close>

text \<open>
  The costs in an index, and the paths behind them. \<open>spath g seeds s c p\<close>: the cost \<open>c\<close>
  is the cost of a seed plus the weights along a path of the graph to \<open>s\<close> that visits the
  states \<open>p\<close>, no state twice. \<open>prov\<close> is such a path along which the cost map \<open>cm\<close> holds,
  at every state visited, a cost that is not above the cost of the path up to there.
\<close>

definition costs_of :: "index \<Rightarrow> int32 \<Rightarrow> real option" where
  "costs_of idx s = map_option cumulative_cost (lookup idx s)"

inductive spath :: "Fst \<Rightarrow> (int32 \<Rightarrow> real option) \<Rightarrow> int32 \<Rightarrow> real \<Rightarrow> int32 list \<Rightarrow> bool"
  for g seeds where
    spath_seed: "seeds s = Some c \<Longrightarrow> spath g seeds s c [s]"
  | spath_step: "spath g seeds s c p \<Longrightarrow> a \<in> set (arcs g s) \<Longrightarrow> next_state a \<notin> set p
       \<Longrightarrow> spath g seeds (next_state a) (c + weight a) (next_state a # p)"

inductive prov :: "Fst \<Rightarrow> (int32 \<Rightarrow> real option) \<Rightarrow> (int32 \<Rightarrow> real option)
    \<Rightarrow> int32 \<Rightarrow> real \<Rightarrow> int32 list \<Rightarrow> bool"
  for g seeds cm where
    prov_seed: "seeds s = Some c \<Longrightarrow> cm s = Some c' \<Longrightarrow> c' \<le> c \<Longrightarrow> prov g seeds cm s c [s]"
  | prov_step: "prov g seeds cm s c p \<Longrightarrow> a \<in> set (arcs g s) \<Longrightarrow> next_state a \<notin> set p
       \<Longrightarrow> cm (next_state a) = Some c' \<Longrightarrow> c' \<le> c + weight a
       \<Longrightarrow> prov g seeds cm (next_state a) (c + weight a) (next_state a # p)"

definition path_costs :: "Fst \<Rightarrow> (int32 \<Rightarrow> real option) \<Rightarrow> real set" where
  "path_costs g seeds = {c. \<exists>s p. spath g seeds s c p}"

lemma prov_spath: "prov g seeds cm s c p \<Longrightarrow> spath g seeds s c p"
  by (induction rule: prov.induct) (auto intro: spath.intros)

lemma spath_distinct: "spath g seeds s c p \<Longrightarrow> distinct p \<and> p \<noteq> []"
  by (induction rule: spath.induct) auto

lemma spath_length: "spath g seeds s c p \<Longrightarrow> length p \<le> card (UNIV :: int32 set)"
proof -
  assume "spath g seeds s c p"
  then have "distinct p" by (simp add: spath_distinct)
  then have "length p = card (set p)" by (simp add: distinct_card)
  also have "\<dots> \<le> card (UNIV :: int32 set)" by (rule card_mono) simp_all
  finally show ?thesis .
qed

lemma finite_spath_length:
  "finite {(s, c, p). spath g seeds s c p \<and> length p = n}"
proof (induction n)
  case 0
  have e: "{(s, c, p). spath g seeds s c p \<and> length p = 0} = {}"
    using spath_distinct by auto
  show ?case unfolding e by simp
next
  case (Suc n)
  let ?S = "{(s, c, p). spath g seeds s c p \<and> length p = n}"
  let ?A = "(\<lambda>s. (s, the (seeds s), [s])) ` (UNIV :: int32 set)"
  let ?B = "(\<lambda>(x, a). (next_state a, fst (snd x) + weight a, next_state a # snd (snd x)))
              ` (SIGMA x : ?S. set (arcs g (fst x)))"
  have "{(s, c, p). spath g seeds s c p \<and> length p = Suc n} \<subseteq> ?A \<union> ?B"
  proof (clarify)
    fix s c p assume sp: "spath g seeds s c p" and len: "length p = Suc n"
      and notA: "(s, c, p) \<notin> ?B"
    from sp len notA show "(s, c, p) \<in> ?A"
    proof (cases rule: spath.cases)
      case spath_seed
      then show ?thesis by (auto simp: image_iff)
    next
      case (spath_step s0 c0 p0 a)
      with len have "(s0, c0, p0) \<in> ?S" by simp
      with spath_step have "(s, c, p) \<in> ?B"
        by (force simp: image_iff)
      with notA show ?thesis by simp
    qed
  qed
  moreover have "finite (?A \<union> ?B)" using Suc by simp
  ultimately show ?case by (rule finite_subset)
qed

lemma finite_path_costs: "finite (path_costs g seeds)"
proof -
  let ?N = "card (UNIV :: int32 set)"
  let ?All = "\<Union>n\<in>{..?N}. {(s, c, p). spath g seeds s c p \<and> length p = n}"
  have "finite ?All" using finite_spath_length by blast
  moreover have "path_costs g seeds \<subseteq> (\<lambda>(s, c, p). c) ` ?All"
  proof
    fix c assume "c \<in> path_costs g seeds"
    then obtain s p where sp: "spath g seeds s c p" by (auto simp: path_costs_def)
    with spath_length have "(s, c, p) \<in> ?All" by auto
    then show "c \<in> (\<lambda>(s, c, p). c) ` ?All" by (force simp: image_iff)
  qed
  ultimately show ?thesis by (meson finite_imageI finite_subset)
qed


text \<open>
  The invariant of the pass (every cost in the index is the cost of such a path) and its
  measure: the number of pairs of a state and a path cost that is still below the cost of
  the state, which every upsert of the pass makes smaller.
\<close>

definition lowers :: "(int32 \<Rightarrow> real option) \<Rightarrow> (int32 \<Rightarrow> real option) \<Rightarrow> bool" where
  "lowers cm' cm \<longleftrightarrow> (\<forall>u cu. cm u = Some cu \<longrightarrow> (\<exists>cu'. cm' u = Some cu' \<and> cu' \<le> cu))"

definition provenance :: "Fst \<Rightarrow> (int32 \<Rightarrow> real option) \<Rightarrow> index \<Rightarrow> bool" where
  "provenance g seeds idx \<longleftrightarrow>
     (\<forall>t ct. costs_of idx t = Some ct \<longrightarrow> (\<exists>p. prov g seeds (costs_of idx) t ct p))"

definition potential :: "Fst \<Rightarrow> (int32 \<Rightarrow> real option) \<Rightarrow> index \<Rightarrow> nat" where
  "potential g seeds idx =
     card {(t, c). c \<in> path_costs g seeds \<and> (\<forall>ct. costs_of idx t = Some ct \<longrightarrow> c < ct)}"

lemma prov_mono:
  assumes "prov g seeds cm s c p" "lowers cm' cm"
  shows "prov g seeds cm' s c p"
  using assms
proof (induction rule: prov.induct)
  case (prov_seed s c c')
  from prov_seed(2,4) obtain c'' where "cm' s = Some c''" "c'' \<le> c'"
    unfolding lowers_def by blast
  with prov_seed(1,3) show ?case by (intro prov.prov_seed [where c' = c'']) auto
next
  case (prov_step s c p a c')
  from prov_step(4,7) obtain c'' where "cm' (next_state a) = Some c''" "c'' \<le> c'"
    unfolding lowers_def by blast
  with prov_step show ?case by (intro prov.prov_step [where c' = c'']) auto
qed

lemma prov_dominates:
  assumes nonneg: "\<forall>s. \<forall>a\<in>set (arcs g s). 0 \<le> weight a"
    and "prov g seeds cm s c p" "u \<in> set p"
  shows "\<exists>cu. cm u = Some cu \<and> cu \<le> c"
  using assms(2,3)
proof (induction rule: prov.induct)
  case (prov_seed s c c')
  then show ?case by auto
next
  case (prov_step s c p a c')
  from nonneg prov_step(2) have w: "0 \<le> weight a" by blast
  show ?case
  proof (cases "u = next_state a")
    case True
    with prov_step(4,5) show ?thesis by auto
  next
    case False
    with prov_step(7) have "u \<in> set p" by simp
    from prov_step(6) [OF this] obtain cu where "cm u = Some cu" "cu \<le> c" by blast
    with w show ?thesis by (intro exI [of _ cu]) auto
  qed
qed

lemma costs_of_upsert:
  assumes "case lookup idx dst of None \<Rightarrow> True
           | Some old \<Rightarrow> cumulative_cost hyp < cumulative_cost old"
  shows "costs_of (upsert dst hyp idx) = (costs_of idx)(dst \<mapsto> cumulative_cost hyp)"
  using assms by (auto simp: costs_of_def lookup_upsert fun_eq_iff split: option.splits)

lemma finite_potential_set:
  "finite {(t :: int32, c). c \<in> path_costs g seeds \<and> (\<forall>ct. cm t = Some ct \<longrightarrow> c < ct)}"
proof -
  have "{(t :: int32, c). c \<in> path_costs g seeds \<and> (\<forall>ct. cm t = Some ct \<longrightarrow> c < ct)}
      \<subseteq> UNIV \<times> path_costs g seeds" by auto
  moreover have "finite ((UNIV :: int32 set) \<times> path_costs g seeds)"
    using finite_path_costs by simp
  ultimately show ?thesis by (rule finite_subset)
qed

lemma potential_decreases:
  assumes c: "c \<in> path_costs g seeds"
    and new: "costs_of idx' = (costs_of idx)(dst \<mapsto> c)"
    and better: "\<forall>old. costs_of idx dst = Some old \<longrightarrow> c < old"
  shows "potential g seeds idx' < potential g seeds idx"
proof -
  let ?S = "\<lambda>cm. {(t :: int32, c). c \<in> path_costs g seeds \<and> (\<forall>ct. cm t = Some ct \<longrightarrow> c < ct)}"
  have "?S (costs_of idx') \<subseteq> ?S (costs_of idx)"
    using better by (auto simp: new split: if_splits)
  moreover have "(dst, c) \<in> ?S (costs_of idx)" using c better by auto
  moreover have "(dst, c) \<notin> ?S (costs_of idx')" by (simp add: new)
  ultimately have "?S (costs_of idx') \<subset> ?S (costs_of idx)" by blast
  then show ?thesis unfolding potential_def
    by (intro psubset_card_mono finite_potential_set)
qed

lemma expand_free_step:
  assumes nonneg: "\<forall>s. \<forall>a\<in>set (arcs g s). 0 \<le> weight a"
    and inv: "provenance g seeds idx"
    and src: "prov g seeds (costs_of idx) s (cumulative_cost src) p"
    and a: "a \<in> set (arcs g s)"
    and res: "expand_free cutoff src a (idx, q) = (idx', q')"
  shows "provenance g seeds idx' \<and> prov g seeds (costs_of idx') s (cumulative_cost src) p
     \<and> ((idx', q') = (idx, q) \<or> potential g seeds idx' < potential g seeds idx)"
proof -
  let ?hyp = "create a (Some src) None"
  let ?dst = "next_state a"
  let ?c = "cumulative_cost src + weight a"
  have chyp: "cumulative_cost ?hyp = ?c" by (simp add: create_def)
  show ?thesis
  proof (cases "\<not> consumes_frame a \<and> cumulative_cost ?hyp \<le> cutoff
          \<and> (case lookup idx ?dst of None \<Rightarrow> True
              | Some old \<Rightarrow> cumulative_cost ?hyp < cumulative_cost old)")
    case False
    with res have "(idx', q') = (idx, q)"
      by (auto simp: expand_free_def Let_def split: if_splits)
    with inv src show ?thesis by simp
  next
    case True
    with res have idx': "idx' = upsert ?dst ?hyp idx"
      by (auto simp: expand_free_def Let_def split: if_splits)
    from True have cm': "costs_of idx' = (costs_of idx)(?dst \<mapsto> ?c)"
      unfolding idx' using costs_of_upsert [where idx = idx and dst = ?dst and hyp = ?hyp] chyp by simp
    from True have better: "\<forall>old. costs_of idx ?dst = Some old \<longrightarrow> ?c < old"
      by (auto simp: costs_of_def chyp split: option.splits)
    have low: "lowers (costs_of idx') (costs_of idx)"
      unfolding lowers_def cm' using better by auto
    have src': "prov g seeds (costs_of idx') s (cumulative_cost src) p"
      by (rule prov_mono [OF src low])
    have notin: "?dst \<notin> set p"
    proof
      assume "?dst \<in> set p"
      from prov_dominates [OF nonneg src this]
      obtain cu where cu: "costs_of idx ?dst = Some cu" "cu \<le> cumulative_cost src" by blast
      from nonneg a have "0 \<le> weight a" by blast
      with cu better show False by fastforce
    qed
    have new: "prov g seeds (costs_of idx') ?dst ?c (?dst # p)"
      by (rule prov.prov_step [OF src' a notin, where c' = ?c]) (simp_all add: cm')
    have "provenance g seeds idx'"
      unfolding provenance_def
    proof (intro allI impI)
      fix t ct assume t: "costs_of idx' t = Some ct"
      show "\<exists>p. prov g seeds (costs_of idx') t ct p"
      proof (cases "t = ?dst")
        case True
        with t cm' have "ct = ?c" by simp
        with new True show ?thesis by blast
      next
        case False
        with t cm' have "costs_of idx t = Some ct" by simp
        with inv obtain p' where "prov g seeds (costs_of idx) t ct p'"
          unfolding provenance_def by blast
        from prov_mono [OF this low] show ?thesis by blast
      qed
    qed
    moreover have "?c \<in> path_costs g seeds"
      using prov_spath [OF new] unfolding path_costs_def by blast
    from potential_decreases [OF this cm' better]
    have "potential g seeds idx' < potential g seeds idx" .
    ultimately show ?thesis using src' by blast
  qed
qed

lemma fold_expand_free:
  assumes nonneg: "\<forall>s. \<forall>a\<in>set (arcs g s). 0 \<le> weight a"
    and "provenance g seeds idx"
    and "prov g seeds (costs_of idx) s (cumulative_cost src) p"
    and "set as \<subseteq> set (arcs g s)"
    and "fold (expand_free cutoff src) as (idx, q) = (idx', q')"
  shows "provenance g seeds idx'
     \<and> ((idx', q') = (idx, q) \<or> potential g seeds idx' < potential g seeds idx)"
  using assms(2-)
proof (induction as arbitrary: idx q)
  case Nil
  then show ?case by simp
next
  case (Cons a as)
  obtain idx1 q1 where one: "expand_free cutoff src a (idx, q) = (idx1, q1)"
    by (cases "expand_free cutoff src a (idx, q)")
  from Cons.prems(3) have a: "a \<in> set (arcs g s)" and as: "set as \<subseteq> set (arcs g s)" by simp_all
  from expand_free_step [OF nonneg Cons.prems(1,2) a one]
  have inv1: "provenance g seeds idx1"
    and src1: "prov g seeds (costs_of idx1) s (cumulative_cost src) p"
    and m1: "(idx1, q1) = (idx, q) \<or> potential g seeds idx1 < potential g seeds idx"
    by blast+
  from Cons.prems(4) one have rest: "fold (expand_free cutoff src) as (idx1, q1) = (idx', q')"
    by simp
  from Cons.IH [OF inv1 src1 as rest] m1 show ?case by auto
qed


lemma nonemitting_step_measure:
  assumes nonneg: "\<forall>s. \<forall>a\<in>set (arcs g s). 0 \<le> weight a"
    and inv: "provenance g seeds idx"
    and q: "q \<noteq> []"
    and res: "nonemitting_step g cutoff (idx, q) = (idx', q')"
  shows "provenance g seeds idx'
     \<and> (potential g seeds idx' < potential g seeds idx
        \<or> potential g seeds idx' = potential g seeds idx \<and> length q' < length q)"
proof -
  from q obtain s rest where qs: "q = s # rest" by (cases q) auto
  show ?thesis
  proof (cases "lookup idx s")
    case None
    with res qs have "idx' = idx" "q' = rest" by (simp_all add: nonemitting_step_def)
    with inv qs show ?thesis by simp
  next
    case (Some src)
    with res qs have f: "fold (expand_free cutoff src) (arcs g s) (idx, rest) = (idx', q')"
      by (simp add: nonemitting_step_def)
    from Some have "costs_of idx s = Some (cumulative_cost src)" by (simp add: costs_of_def)
    with inv obtain p where p: "prov g seeds (costs_of idx) s (cumulative_cost src) p"
      unfolding provenance_def by blast
    from fold_expand_free [OF nonneg inv p subset_refl f]
    have "provenance g seeds idx'"
      and "(idx', q') = (idx, rest) \<or> potential g seeds idx' < potential g seeds idx"
      by blast+
    with qs show ?thesis by auto
  qed
qed

lemma provenance_seeds: "provenance g (costs_of idx) idx"
  unfolding provenance_def
proof (intro allI impI)
  fix t ct assume "costs_of idx t = Some ct"
  then have "prov g (costs_of idx) (costs_of idx) t ct [t]"
    by (intro prov.prov_seed [where c' = ct]) simp_all
  then show "\<exists>p. prov g (costs_of idx) (costs_of idx) t ct p" ..
qed

text \<open>
  C6. On every graph whose transition weights are all non-negative, \<open>ProcessNonemitting\<close>
  terminates, whatever the index and the cutoff: the loop over the work queue reaches the
  empty queue and the pass returns an index.
\<close>

theorem ProcessNonemitting_terminates:
  assumes nonneg: "\<forall>s. \<forall>a\<in>set (arcs g s). 0 \<le> weight a"
  shows "\<exists>idx'. while_option (\<lambda>(idx, queue). queue \<noteq> []) (nonemitting_step g cutoff)
                  (idx, map fst idx) = Some (idx', [])
             \<and> ProcessNonemitting g cutoff idx = Some idx'"
proof -
  let ?b = "\<lambda>(idx, queue :: int32 list). queue \<noteq> []"
  let ?c = "nonemitting_step g cutoff"
  let ?P = "\<lambda>(i, q :: int32 list). provenance g (costs_of idx) i"
  let ?m = "\<lambda>(i, q :: int32 list). (potential g (costs_of idx) i, length q)"
  have "{(t, s). (?P s \<and> ?b s) \<and> t = ?c s} \<subseteq> inv_image (less_than <*lex*> less_than) ?m"
  proof (rule subsetI)
    fix x assume x: "x \<in> {(t, s). (?P s \<and> ?b s) \<and> t = ?c s}"
    obtain t i q where xe: "x = (t, (i, q))" by (cases x) auto
    obtain i' q' where r: "?c (i, q) = (i', q')" by (cases "?c (i, q)")
    from x xe have a: "provenance g (costs_of idx) i" "q \<noteq> []" and t: "t = ?c (i, q)"
      by simp_all
    from nonemitting_step_measure [OF nonneg a r]
    show "x \<in> inv_image (less_than <*lex*> less_than) ?m"
      unfolding xe t r by auto
  qed
  then have wf: "wf {(t, s). (?P s \<and> ?b s) \<and> t = ?c s}"
    by (rule wf_subset [rotated]) (intro wf_inv_image wf_lex_prod wf_less_than)
  have step: "\<And>s. ?P s \<Longrightarrow> ?b s \<Longrightarrow> ?P (?c s)"
  proof -
    fix s assume P: "?P s" and b: "?b s"
    obtain i q where s: "s = (i, q)" by (cases s)
    obtain i' q' where r: "?c (i, q) = (i', q')" by (cases "?c (i, q)")
    from nonemitting_step_measure [OF nonneg, of "costs_of idx" i q cutoff i' q'] P b s r
    show "?P (?c s)" by simp
  qed
  have init: "?P (idx, map fst idx)" by (simp add: provenance_seeds)
  from wf_while_option_Some [of ?P ?b ?c, OF wf step init]
  obtain t where t: "while_option ?b ?c (idx, map fst idx) = Some t" by blast
  obtain i q where iq: "t = (i, q)" by (cases t)
  from while_option_stop [OF t] iq have "q = []" by simp
  with t iq show ?thesis by (simp add: ProcessNonemitting_def)
qed


theorem ProcessNonemitting_terminates_witness:
  "ProcessNonemitting
     \<lparr>start = 1,
      arcs = (\<lambda>s. if s = 1 then [\<lparr>next_state = 2, olabel = 4, weight = 0, consumes_frame = False\<rparr>]
                   else if s = 2 then [\<lparr>next_state = 1, olabel = 5, weight = 0, consumes_frame = False\<rparr>,
                                       \<lparr>next_state = 3, olabel = 6, weight = 7, consumes_frame = False\<rparr>]
                   else []),
      final = (\<lambda>s. None)\<rparr>
     5
     [(1, Hypothesis \<lparr>next_state = 1, olabel = 0, weight = 0, consumes_frame = False\<rparr> None 0)]
   = Some
     [(1, Hypothesis \<lparr>next_state = 1, olabel = 0, weight = 0, consumes_frame = False\<rparr> None 0),
      (2, Hypothesis \<lparr>next_state = 2, olabel = 4, weight = 0, consumes_frame = False\<rparr>
            (Some (Hypothesis \<lparr>next_state = 1, olabel = 0, weight = 0, consumes_frame = False\<rparr> None 0))
            0)]"
proof -
  let ?g = "\<lparr>start = 1,
      arcs = (\<lambda>s :: int32. if s = 1 then [\<lparr>next_state = 2, olabel = 4, weight = 0, consumes_frame = False\<rparr>]
                   else if s = 2 then [\<lparr>next_state = 1, olabel = 5, weight = 0, consumes_frame = False\<rparr>,
                                       \<lparr>next_state = 3, olabel = 6, weight = 7, consumes_frame = False\<rparr>]
                   else []),
      final = (\<lambda>s :: int32. None :: real option)\<rparr>"
  let ?r = "Hypothesis \<lparr>next_state = 1, olabel = 0, weight = 0, consumes_frame = False\<rparr> None 0"
  have nonneg: "\<forall>s. \<forall>a\<in>set (arcs ?g s). 0 \<le> weight a" by auto
  from ProcessNonemitting_terminates [OF nonneg, of 5 "[(1, ?r)]"]
  obtain idx' where "ProcessNonemitting ?g 5 [(1, ?r)] = Some idx'" by blast
  moreover have "ProcessNonemitting ?g 5 [(1, ?r)] = Some
     [(1, ?r),
      (2, Hypothesis \<lparr>next_state = 2, olabel = 4, weight = 0, consumes_frame = False\<rparr> (Some ?r) 0)]"
    by (simp add: ProcessNonemitting_def while_option_unfold nonemitting_step_def expand_free_def
        lookup_def create_def)
  ultimately show ?thesis by simp
qed

section \<open>Decoding frame by frame\<close>

text \<open>\<open>frames g dec n\<close>: \<open>n\<close> frames, one after the other.\<close>

fun frames :: "Fst \<Rightarrow> Decodable \<Rightarrow> nat \<Rightarrow> hypothesis FasterDecoder \<Rightarrow> hypothesis FasterDecoder option" where
  "frames g dec 0 d = Some d"
| "frames g dec (Suc n) d = Option.bind (process_frame g dec d) (frames g dec n)"

lemma process_frame_counter:
  "process_frame g dec d = Some d' \<Longrightarrow> num_frames_decoded d' = num_frames_decoded d + 1"
  by (auto simp: process_frame_def ProcessEmitting_def Let_def drain_def)

lemma sint_succ:
  fixes x :: int32
  assumes "sint x < sint (y :: int32)"
  shows "sint (x + 1) = sint x + 1"
proof -
  have "sint y < 2 ^ 31" using sint_lt [of y] by simp
  moreover have "- (2 ^ 31) \<le> sint x" using sint_ge [of x] by simp
  ultimately have "- (2 ^ 31) \<le> sint x + 1 \<and> sint x + 1 < 2 ^ 31" using assms by linarith
  then have "signed_take_bit 31 (sint x + 1) = sint x + 1"
    by (intro signed_take_bit_int_eq_self) simp_all
  then show ?thesis
    by (simp add: sint_word_ariths)
qed


lemma frames_0: "frames g dec 0 = Some"
  by (rule ext) simp

lemma decode_loop_frames:
  assumes "sint (num_frames_decoded d) \<le> target" "target \<le> sint (y :: int32)"
    "n = nat (target - sint (num_frames_decoded d))"
  shows "decode_loop g dec target d = frames g dec n d"
  using assms
proof (induction n arbitrary: d)
  case 0
  then have "\<not> sint (num_frames_decoded d) < target" by simp
  then show ?case by (subst decode_loop.simps) simp
next
  case (Suc n)
  then have lt: "sint (num_frames_decoded d) < target" by linarith
  have "Option.bind (process_frame g dec d) (decode_loop g dec target)
      = Option.bind (process_frame g dec d) (frames g dec n)"
  proof (rule Option.bind_cong [OF refl])
    fix d' assume "process_frame g dec d = Some d'"
    then have c: "num_frames_decoded d' = num_frames_decoded d + 1"
      by (rule process_frame_counter)
    from lt Suc.prems(2) have "sint (num_frames_decoded d) < sint y" by linarith
    then have s: "sint (num_frames_decoded d') = sint (num_frames_decoded d) + 1"
      unfolding c by (rule sint_succ)
    show "decode_loop g dec target d' = frames g dec n d'"
      by (rule Suc.IH) (use s lt Suc.prems in simp_all)
  qed
  with lt show ?case by (subst decode_loop.simps) simp
qed

lemma AdvanceDecoding_one:
  assumes "sint (num_frames_decoded d) < sint (num_frames_ready dec)"
  shows "AdvanceDecoding g dec 1 d = process_frame g dec d"
proof -
  let ?t = "sint (num_frames_decoded d) + 1"
  have t: "min (sint (num_frames_ready dec)) (sint (num_frames_decoded d) + 1) = ?t"
    using assms by simp
  have "decode_loop g dec ?t d = frames g dec (Suc 0) d"
    by (rule decode_loop_frames [where y = "num_frames_ready dec"]) (use assms in simp_all)
  then show ?thesis by (simp add: AdvanceDecoding_def t frames_0)
qed

lemma frames_snoc:
  "frames g dec (Suc n) d = Option.bind (frames g dec n d) (process_frame g dec)"
proof (induction n arbitrary: d)
  case 0
  then show ?case by (simp add: frames_0)
next
  case (Suc n)
  have "frames g dec (Suc (Suc n)) d
      = Option.bind (process_frame g dec d) (\<lambda>d'. Option.bind (frames g dec n d') (process_frame g dec))"
  proof -
    have "frames g dec (Suc n) = (\<lambda>d'. Option.bind (frames g dec n d') (process_frame g dec))"
      by (rule ext) (rule Suc.IH)
    then show ?thesis by (simp only: frames.simps(2) [of g dec "Suc n"])
  qed
  also have "\<dots> = Option.bind (frames g dec (Suc n) d) (process_frame g dec)"
    by simp
  finally show ?case .
qed

lemma frames_counter:
  assumes "frames g dec n d = Some d'" "sint (num_frames_decoded d) + int n \<le> sint (y :: int32)"
  shows "sint (num_frames_decoded d') = sint (num_frames_decoded d) + int n"
  using assms
proof (induction n arbitrary: d)
  case 0
  then show ?case by simp
next
  case (Suc n)
  from Suc.prems(1) obtain d1 where d1: "process_frame g dec d = Some d1"
    and rest: "frames g dec n d1 = Some d'"
    by (auto simp: bind_eq_Some_conv)
  from Suc.prems(2) have "sint (num_frames_decoded d) < sint y" by linarith
  then have s: "sint (num_frames_decoded d1) = sint (num_frames_decoded d) + 1"
    unfolding process_frame_counter [OF d1] by (rule sint_succ)
  from Suc.IH [OF rest] Suc.prems(2) s show ?case by simp
qed

lemma advance_frames:
  assumes ready: "sint (num_frames_ready dec) = int N" and zero: "num_frames_decoded d = 0"
    and n: "n \<le> N"
  shows "((\<lambda>x. Option.bind x (AdvanceDecoding g dec 1)) ^^ n) (Some d) = frames g dec n d"
  using n
proof (induction n)
  case 0
  then show ?case by simp
next
  case (Suc n)
  then have IH: "((\<lambda>x. Option.bind x (AdvanceDecoding g dec 1)) ^^ n) (Some d) = frames g dec n d"
    by simp
  have "Option.bind (frames g dec n d) (AdvanceDecoding g dec 1)
      = Option.bind (frames g dec n d) (process_frame g dec)"
  proof (rule Option.bind_cong [OF refl])
    fix d' assume f: "frames g dec n d = Some d'"
    have "sint (num_frames_decoded d') = sint (num_frames_decoded d) + int n"
      by (rule frames_counter [OF f, where y = "num_frames_ready dec"])
         (use Suc.prems ready zero in simp)
    with Suc.prems ready zero have "sint (num_frames_decoded d') < sint (num_frames_ready dec)"
      by simp
    then show "AdvanceDecoding g dec 1 d' = process_frame g dec d'"
      by (rule AdvanceDecoding_one)
  qed
  then show ?case using IH by (simp add: frames_snoc del: frames.simps)
qed

lemma Decode_frames:
  assumes ready: "sint (num_frames_ready dec) = int N"
  shows "Decode g dec d = frames g dec N (InitDecoding g d)"
  unfolding Decode_def
  by (rule decode_loop_frames [where y = "num_frames_ready dec"])
     (simp_all add: ready InitDecoding_def)

text \<open>
  C8. For every graph, scoring collaborator and configuration: when \<open>N\<close> frames are ready,
  \<open>InitDecoding\<close> followed by \<open>N\<close> calls of \<open>AdvanceDecoding\<close> for one frame each gives
  the same decoder state as one call of \<open>Decode\<close> (also when a pass does not end: then
  neither returns), hence the same active generation and the same best path.
\<close>

theorem incremental_equivalence:
  assumes "sint (num_frames_ready dec) = int N"
  shows "((\<lambda>x. Option.bind x (AdvanceDecoding g dec 1)) ^^ N) (Some (InitDecoding g d))
         = Decode g dec d
     \<and> map_option toks
         (((\<lambda>x. Option.bind x (AdvanceDecoding g dec 1)) ^^ N) (Some (InitDecoding g d)))
         = map_option toks (Decode g dec d)
     \<and> map_option (\<lambda>d'. GetBestPath g (toks d') u)
         (((\<lambda>x. Option.bind x (AdvanceDecoding g dec 1)) ^^ N) (Some (InitDecoding g d)))
         = map_option (\<lambda>d'. GetBestPath g (toks d') u) (Decode g dec d)"
proof -
  have "num_frames_decoded (InitDecoding g d) = 0" by (simp add: InitDecoding_def)
  from advance_frames [OF assms this order_refl] Decode_frames [OF assms]
  have "((\<lambda>x. Option.bind x (AdvanceDecoding g dec 1)) ^^ N) (Some (InitDecoding g d))
         = Decode g dec d"
    by simp
  then show ?thesis by simp
qed

theorem incremental_equivalence_witness:
  "((\<lambda>x. Option.bind x
        (AdvanceDecoding
           \<lparr>start = 0,
            arcs = (\<lambda>s. if s = 0 then [\<lparr>next_state = 1, olabel = 7, weight = 1, consumes_frame = True\<rparr>]
                   else if s = 1 then [\<lparr>next_state = 1, olabel = 8, weight = 1, consumes_frame = True\<rparr>]
                   else []),
            final = (\<lambda>s. if s = 1 then Some 0 else None)\<rparr>
           \<lparr>num_frames_ready = 2, acoustic_cost = (\<lambda>frame a. 2)\<rparr> 1)) ^^ 2)
     (Some (InitDecoding
        \<lparr>start = 0,
         arcs = (\<lambda>s. if s = 0 then [\<lparr>next_state = 1, olabel = 7, weight = 1, consumes_frame = True\<rparr>]
                   else if s = 1 then [\<lparr>next_state = 1, olabel = 8, weight = 1, consumes_frame = True\<rparr>]
                   else []),
         final = (\<lambda>s. if s = 1 then Some 0 else None)\<rparr>
        \<lparr>toks = [], config = default_options, num_frames_decoded = 0\<rparr>))
   = Some \<lparr>toks =
       [(1, Hypothesis \<lparr>next_state = 1, olabel = 8, weight = 1, consumes_frame = True\<rparr>
             (Some (Hypothesis \<lparr>next_state = 1, olabel = 7, weight = 1, consumes_frame = True\<rparr>
                (Some (Hypothesis \<lparr>next_state = 0, olabel = 0, weight = 0, consumes_frame = False\<rparr>
                   None 0))
                3))
             6)],
       config = default_options, num_frames_decoded = 2\<rparr>"
proof -
  let ?g = "\<lparr>start = 0,
      arcs = (\<lambda>s :: int32. if s = 0 then [\<lparr>next_state = 1, olabel = 7, weight = 1, consumes_frame = True\<rparr>]
                   else if s = 1 then [\<lparr>next_state = 1, olabel = 8, weight = 1, consumes_frame = True\<rparr>]
                   else []),
      final = (\<lambda>s :: int32. if s = 1 then Some (0 :: real) else None)\<rparr>"
  let ?dec = "\<lparr>num_frames_ready = 2, acoustic_cost = (\<lambda>(frame :: int32) (a :: Arc). 2 :: real)\<rparr>"
  let ?d = "\<lparr>toks = ([] :: index), config = default_options, num_frames_decoded = 0\<rparr>"
  have ready: "sint (num_frames_ready ?dec) = int 2" by simp
  have "Decode ?g ?dec ?d = Some \<lparr>toks =
       [(1, Hypothesis \<lparr>next_state = 1, olabel = 8, weight = 1, consumes_frame = True\<rparr>
             (Some (Hypothesis \<lparr>next_state = 1, olabel = 7, weight = 1, consumes_frame = True\<rparr>
                (Some (Hypothesis \<lparr>next_state = 0, olabel = 0, weight = 0, consumes_frame = False\<rparr>
                   None 0))
                3))
             6)],
       config = default_options, num_frames_decoded = 2\<rparr>"
    by (simp add: Decode_def InitDecoding_def drain_def decode_loop.simps process_frame_def
      ProcessEmitting_def expand_emitting_def GetCutoff_def naive_cutoff_def admitted_def
      default_options_def create_def lookup_def
      ProcessNonemitting_def while_option_unfold nonemitting_step_def expand_free_def)
  with conjunct1 [OF incremental_equivalence [OF ready, of ?g ?d]] show ?thesis
    by (simp only:)
qed

end
